theory Spec2Isabelle
  imports Complex_Main "HOL-Library.Word"
begin

section \<open>JavaScript strings\<close>

text \<open>
  A JavaScript string is a sequence of UTF-16 code units; \<open>length\<close> counts code units and
  a regular expression without the \<open>u\<close> flag matches code unit by code unit.
\<close>

type_synonym jschar = "16 word"
type_synonym jsstring = "jschar list"

definition str :: "string \<Rightarrow> jsstring" where
  \<comment> \<open>a literal, written with Isabelle characters\<close>
  "str s = map of_char s"

definition SP :: jschar where
  \<comment> \<open>the space of the template literal \<open>` ${w[i]}`\<close>\<close>
  "SP = 0x20"

definition LF :: jschar where
  "LF = 0x0A"

definition nl :: "jschar \<Rightarrow> bool" where
  \<comment> \<open>\<open>const nl = /\n/\<close>\<close>
  "nl c = (c = 0x0A)"

definition space :: "jschar \<Rightarrow> bool" where
  \<comment> \<open>\<open>const space = /\s/\<close>: ECMAScript WhiteSpace and LineTerminator code points\<close>
  "space c = (c = 0x09 \<or> c = 0x0A \<or> c = 0x0B \<or> c = 0x0C \<or> c = 0x0D \<or> c = 0x20
     \<or> c = 0xA0 \<or> c = 0x1680 \<or> (0x2000 \<le> c \<and> c \<le> 0x200A)
     \<or> c = 0x2028 \<or> c = 0x2029 \<or> c = 0x202F \<or> c = 0x205F \<or> c = 0x3000 \<or> c = 0xFEFF)"

fun split_re :: "(jschar \<Rightarrow> bool) \<Rightarrow> jsstring \<Rightarrow> jsstring list" where
  \<comment> \<open>\<open>s.split(re)\<close> for a regular expression that matches exactly one code unit of
      the class \<open>re\<close>: every matching code unit ends a piece, and the empty string
      gives \<open>[""]\<close>. The result is never empty (\<open>split_re_nonempty\<close>), so the
      first branch of the case is never taken.\<close>
  "split_re re [] = [[]]"
| "split_re re (c # cs) =
     (if re c then [] # split_re re cs
      else (case split_re re cs of
              [] \<Rightarrow> [[c]]
            | t # ts \<Rightarrow> (c # t) # ts))"

section \<open>The row wrapper\<close>

text \<open>
  \<open>static splitOnRows(text, chars)\<close>. The array \<open>rows\<close> is threaded through both loops.
  \<open>w[0]\<close> is \<open>hd w\<close>: \<open>split\<close> never returns an empty array. The inner loop
  \<open>for (let i = 1; i < w.length; i++)\<close> runs over \<open>tl w\<close>; it reads and writes
  \<open>rows[rows.length - 1]\<close>, which exists because \<open>w[0]\<close> was pushed before. \<open>chars\<close>
  is an integer, of either sign.
\<close>

fun words_loop :: "int \<Rightarrow> jsstring list \<Rightarrow> jsstring list \<Rightarrow> jsstring list" where
  "words_loop chars [] rows = rows"
| "words_loop chars (wi # ws) rows =
     words_loop chars ws
       (if int (length wi) + int (length (rows ! (length rows - 1))) + 1 < chars
        then rows[length rows - 1 := rows ! (length rows - 1) @ SP # wi]
        else rows @ [wi])"

fun pars_loop :: "int \<Rightarrow> jsstring list \<Rightarrow> jsstring list \<Rightarrow> jsstring list" where
  "pars_loop chars [] rows = rows"
| "pars_loop chars (p # ps) rows =
     (let w = split_re space p
      in pars_loop chars ps (words_loop chars (tl w) (rows @ [hd w])))"

definition splitOnRows :: "jsstring \<Rightarrow> int \<Rightarrow> jsstring list" where
  "splitOnRows text chars = pars_loop chars (split_re nl text) []"

section \<open>Construction\<close>

text \<open>
  The values an option can hold. The numbers are NaN, the two infinities and the safe
  integers: \<open>JNum n\<close> is the integer \<open>sint n\<close>, from \<open>- (2 ^ 53)\<close> to \<open>2 ^ 53 - 1\<close>.
  A double holds each of them exactly, Number-to-string conversion writes them as plain
  decimal numerals, and \<open>parseInt\<close> and \<open>Math.abs\<close> are exact on them. Fractional
  numbers and larger integers, which Number-to-string conversion can write with an
  exponent, are not values of this type.
\<close>

datatype jsval =
  JUndefined | JNull | JBool bool
| JNaN
| JInfinity bool  \<comment> \<open>\<open>True\<close> for \<open>-Infinity\<close>\<close>
| JNum "54 word"
| JStr jsstring

record options =
  maxLineChars :: jsval
  closeOnEnter :: jsval

definition spread :: "options option \<Rightarrow> options" where
  \<comment> \<open>\<open>{...options}\<close>: the argument may be missing, and a missing key reads as
      \<open>undefined\<close>\<close>
  "spread options = (case options of
       None \<Rightarrow> \<lparr>maxLineChars = JUndefined, closeOnEnter = JUndefined\<rparr>
     | Some opts \<Rightarrow> opts)"

definition digit_char :: "nat \<Rightarrow> jschar" where
  "digit_char d = of_nat (48 + d)"

fun digits :: "nat \<Rightarrow> jsstring" where
  "digits n = (if n < 10 then [digit_char n] else digits (n div 10) @ [digit_char (n mod 10)])"

declare digits.simps [simp del]

fun ToString :: "jsval \<Rightarrow> jsstring" where
  "ToString JUndefined = str ''undefined''"
| "ToString JNull = str ''null''"
| "ToString (JBool b) = (if b then str ''true'' else str ''false'')"
| "ToString JNaN = str ''NaN''"
| "ToString (JInfinity negative) = (if negative then str ''-Infinity'' else str ''Infinity'')"
| "ToString (JNum n) =
     (if sint n < 0 then 0x2D # digits (nat (- sint n)) else digits (nat (sint n)))"
| "ToString (JStr s) = s"

definition is_digit :: "jschar \<Rightarrow> bool" where
  "is_digit c = (0x30 \<le> c \<and> c \<le> 0x39)"

definition digit_value :: "jschar \<Rightarrow> nat" where
  "digit_value c = unat c - 48"

definition parseInt :: "jsval \<Rightarrow> int option" where
  \<comment> \<open>\<open>parseInt(v, 10)\<close>; \<open>None\<close> is NaN. The argument is converted to a string,
      leading white space is skipped, one sign is read, and the longest run of decimal
      digits is the value; with the radix given as 10 no \<open>0x\<close> prefix is read. The
      result is the integer the digits denote. JavaScript returns the double nearest
      to it, which is that integer up to \<open>2 ^ 53\<close>: below, only whether the result is
      NaN, whether it is 0, and its value on safe integers are used.\<close>
  "parseInt v =
     (let S = dropWhile space (ToString v);
          sign = (if S \<noteq> [] \<and> hd S = 0x2D then - 1 else 1);
          S' = (if S \<noteq> [] \<and> (hd S = 0x2B \<or> hd S = 0x2D) then tl S else S);
          Z = takeWhile is_digit S'
      in if Z = [] then None
         else Some (sign * int (foldl (\<lambda>a c. 10 * a + digit_value c) 0 Z)))"

definition Math_abs :: "int option \<Rightarrow> int option" where
  \<comment> \<open>the absolute value; NaN stays NaN\<close>
  "Math_abs x = map_option abs x"

definition DEFAULT_LINE_CHARS :: int where
  "DEFAULT_LINE_CHARS = 40"

text \<open>
  The field: the state of the host's base class that this class reads, and the two
  members the constructor adds.
\<close>

record field =
  value' :: jsstring
  RTL :: bool  \<comment> \<open>\<open>this.sourceBlock_.RTL\<close>\<close>
  isBeingEdited' :: bool
  htmlInput' :: "jsstring option"  \<comment> \<open>\<open>this.htmlInput_.value\<close>, when the editor exists\<close>
  maxDisplayLength :: int
  borderRect' :: bool  \<comment> \<open>whether the border rectangle exists\<close>
  textGroup' :: "jsstring list"  \<comment> \<open>the text of each child node\<close>
  size_width :: real
  size_height :: real
  maxLineChars' :: int
  closeOnEnter' :: bool

definition "constructor" :: "field \<Rightarrow> options option \<Rightarrow> field" where
  \<comment> \<open>\<open>this\<close> is the object as \<open>super(value, validator, options)\<close> leaves it;
      \<open>options_copy\<close> is \<open>_options\<close>, and the last line is
      \<open>maxLineChars || DEFAULT_LINE_CHARS\<close>, where NaN and 0 are the falsy numbers\<close>
  "constructor this options =
     (let options_copy = spread options;
          maxLineChars_local = Math_abs (parseInt (maxLineChars options_copy))
      in this\<lparr>maxLineChars' :=
                (case maxLineChars_local of
                   None \<Rightarrow> DEFAULT_LINE_CHARS
                 | Some n \<Rightarrow> if n = 0 then DEFAULT_LINE_CHARS else n),
              closeOnEnter' := (closeOnEnter options_copy = JBool True)\<rparr>)"

definition getMaxLineChars :: "field \<Rightarrow> int" where
  "getMaxLineChars this = maxLineChars' this"

section \<open>Key handling\<close>

datatype handler =
  FieldTextInput_onHtmlInputKeyDown  \<comment> \<open>the host's single-line handler: Enter commits\<close>
| FieldMultilineInput_onHtmlInputKeyDown  \<comment> \<open>the host's multi-line handler: Enter is left
      to the text area, which inserts a line break\<close>

definition ENTER :: int where
  "ENTER = 13"

definition onHtmlInputKeyDown' :: "field \<Rightarrow> int \<Rightarrow> handler" where
  "onHtmlInputKeyDown' this keyCode =
     (if keyCode = ENTER \<and> closeOnEnter' this then FieldTextInput_onHtmlInputKeyDown
      else FieldMultilineInput_onHtmlInputKeyDown)"

section \<open>Rendering and sizing\<close>

text \<open>
  The host's constants (\<open>this.getConstants()\<close>) and its two measurement primitives,
  as functions of the text of the node they measure. Lengths are real numbers. Of
  \<open>render_\<close> and \<open>updateSize_\<close> the model keeps what they compute: the nodes of the
  text group and the size. Moving the border rectangle, resizing the editor and the
  validity marking of the input element are effects on the page and are left out.
\<close>

record metrics =
  FIELD_TEXT_HEIGHT :: real
  FIELD_BORDER_RECT_Y_PADDING :: real
  FIELD_BORDER_RECT_X_PADDING :: real
  getTextWidth :: "jsstring \<Rightarrow> real"  \<comment> \<open>width of an attached text node\<close>
  getFastTextWidth :: "jsstring \<Rightarrow> real"  \<comment> \<open>width of the detached node, at the
      font size, weight and family of the constants\<close>

definition NBSP :: jschar where
  "NBSP = 0xA0"

definition getText :: "field \<Rightarrow> jsstring" where
  \<comment> \<open>the host's \<open>getText()\<close>: the text of the editor while the field is being
      edited and the editor exists, and otherwise the value, which is a string\<close>
  "getText this =
     (case (if isBeingEdited' this then htmlInput' this else None) of
        Some text \<Rightarrow> text
      | None \<Rightarrow> value' this)"

definition getDisplayText' :: "field \<Rightarrow> jsstring" where
  "getDisplayText' this =
     (let text = getText this
      in if text = [] then [NBSP]
         else if RTL this then text @ [0x200F]
         else text)"

fun nodes_loop :: "metrics \<Rightarrow> jsstring list \<Rightarrow> nat \<Rightarrow> real \<times> real \<Rightarrow> real \<times> real" where
  \<comment> \<open>the first loop of \<open>updateSize_\<close>, from index \<open>i\<close>, on (totalWidth, totalHeight)\<close>
  "nodes_loop m [] i (totalWidth, totalHeight) = (totalWidth, totalHeight)"
| "nodes_loop m (tspan # nodes) i (totalWidth, totalHeight) =
     (let textWidth = getTextWidth m tspan
      in nodes_loop m nodes (i + 1)
           (if textWidth > totalWidth then textWidth else totalWidth,
            totalHeight + (FIELD_TEXT_HEIGHT m + (if i > 0 then FIELD_BORDER_RECT_Y_PADDING m else 0))))"

fun lines_loop :: "metrics \<Rightarrow> int \<Rightarrow> jsstring list \<Rightarrow> real \<Rightarrow> real" where
  \<comment> \<open>the loop over \<open>actualEditorLines\<close>, on totalWidth\<close>
  "lines_loop m maxLen [] totalWidth = totalWidth"
| "lines_loop m maxLen (l # ls) totalWidth =
     (let line = (if int (length l) > maxLen then take (nat maxLen) l else l);
          lineWidth = getFastTextWidth m line
      in lines_loop m maxLen ls (if lineWidth > totalWidth then lineWidth else totalWidth))"

definition updateSize' :: "metrics \<Rightarrow> field \<Rightarrow> field" where
  "updateSize' m this =
     (let (totalWidth, totalHeight) = nodes_loop m (textGroup' this) 0 (0, 0);
          totalWidth = (if isBeingEdited' this
             then lines_loop m (maxDisplayLength this)
                    (splitOnRows (value' this) (maxLineChars' this)) totalWidth
             else totalWidth);
          (totalWidth, totalHeight) = (if borderRect' this
             then (totalWidth + FIELD_BORDER_RECT_X_PADDING m * 2,
                   totalHeight + FIELD_BORDER_RECT_Y_PADDING m * 2)
             else (totalWidth, totalHeight))
      in this\<lparr>size_width := totalWidth, size_height := totalHeight\<rparr>)"

definition render' :: "metrics \<Rightarrow> field \<Rightarrow> field" where
  \<comment> \<open>the text group is emptied and refilled with one node per line, white space
      replaced by no-break spaces; then the size is updated\<close>
  "render' m this =
     (let text = getDisplayText' this;
          lines = splitOnRows text (maxLineChars' this)
      in updateSize' m
           (this\<lparr>textGroup' := map (map (\<lambda>c. if space c then NBSP else c)) lines\<rparr>))"

section \<open>Derived notions\<close>

text \<open>
  Two abbreviations in which the properties below are stated. \<open>put_word\<close> is one pass
  of the inner loop's body, written with \<open>last\<close> and \<open>butlast\<close> for an array that is
  not empty; \<open>paragraph_rows\<close> is what one pass of the outer loop's body appends to
  \<open>rows\<close>. Both are related to the loops by \<open>words_loop_Cons\<close> and
  \<open>splitOnRows_paragraphs\<close>.
\<close>

definition put_word :: "int \<Rightarrow> jsstring list \<Rightarrow> jsstring \<Rightarrow> jsstring list" where
  "put_word chars rows wi =
     (if int (length wi) + int (length (last rows)) + 1 < chars
      then butlast rows @ [last rows @ SP # wi]
      else rows @ [wi])"

definition paragraph_rows :: "int \<Rightarrow> jsstring \<Rightarrow> jsstring list" where
  "paragraph_rows chars p = words_loop chars (tl (split_re space p)) [hd (split_re space p)]"

fun join_nl :: "jsstring list \<Rightarrow> jsstring" where
  \<comment> \<open>\<open>rows.join("\n")\<close>: one row per line\<close>
  "join_nl [] = []"
| "join_nl [r] = r"
| "join_nl (r # rs) = r @ LF # join_nl rs"

definition editor_line_width :: "metrics \<Rightarrow> int \<Rightarrow> jsstring \<Rightarrow> real" where
  \<comment> \<open>the width \<open>lineWidth\<close> that the second loop of \<open>updateSize_\<close> measures
      for one entry of \<open>actualEditorLines\<close>\<close>
  "editor_line_width m maxLen l =
     getFastTextWidth m (if int (length l) > maxLen then take (nat maxLen) l else l)"

text \<open>
  A field and metrics to evaluate on: the field of the README's usage example,
  \<open>new FieldTextBox('Text value')\<close>, as the base constructor leaves it, and metrics
  that give every character the same width.
\<close>

definition example_field :: field where
  "example_field =
     \<lparr>value' = str ''Text value'', RTL = False, isBeingEdited' = False,
      htmlInput' = None, maxDisplayLength = 50, borderRect' = True, textGroup' = [],
      size_width = 0, size_height = 0, maxLineChars' = 0, closeOnEnter' = False\<rparr>"

definition example_metrics :: metrics where
  "example_metrics =
     \<lparr>FIELD_TEXT_HEIGHT = 16, FIELD_BORDER_RECT_Y_PADDING = 3,
      FIELD_BORDER_RECT_X_PADDING = 5,
      getTextWidth = (\<lambda>s. 8 * real (length s)),
      getFastTextWidth = (\<lambda>s. 8 * real (length s))\<rparr>"

section \<open>Splitting and the two loops\<close>

lemma split_re_nonempty [simp]: "split_re re s \<noteq> []"
  by (induction s) (auto split: list.splits)

lemma split_re_Cons:
  "\<not> re c \<Longrightarrow> split_re re (c # cs) = (c # hd (split_re re cs)) # tl (split_re re cs)"
  by (cases "split_re re cs") simp_all

lemma split_re_append_sep:
  "re c \<Longrightarrow> split_re re (s @ c # t) = split_re re s @ split_re re t"
  by (induction s) (auto split: list.splits)

lemma split_re_none: "\<forall>x\<in>set t. \<not> re x \<Longrightarrow> split_re re t = [t]"
  by (induction t) auto

lemma split_re_append_last:
  "\<forall>x\<in>set u. \<not> re x \<Longrightarrow>
   split_re re (s @ u) = butlast (split_re re s) @ [last (split_re re s) @ u]"
proof (induction s)
  case Nil
  then show ?case by (simp add: split_re_none)
next
  case (Cons c s)
  then show ?case
    by (cases "split_re re s") auto
qed

lemma split_re_pieces_all: "\<forall>t\<in>set (split_re re s). \<forall>x\<in>set t. \<not> re x"
proof (induction s)
  case Nil
  then show ?case by simp
next
  case (Cons c s)
  obtain a as where s: "split_re re s = a # as"
    by (cases "split_re re s") auto
  with Cons.IH show ?case by auto
qed

lemma split_re_pieces: "t \<in> set (split_re re s) \<Longrightarrow> x \<in> set t \<Longrightarrow> \<not> re x"
  using split_re_pieces_all by blast

lemma last_index_update:
  "rows \<noteq> [] \<Longrightarrow>
   rows[length rows - 1 := rows ! (length rows - 1) @ x] = butlast rows @ [last rows @ x]"
  by (induction rows rule: rev_induct) (auto simp: nth_append list_update_append)

lemma last_index: "rows \<noteq> [] \<Longrightarrow> rows ! (length rows - 1) = last rows"
  by (simp add: last_conv_nth)

lemma put_word_nonempty [simp]: "put_word chars rows wi \<noteq> []"
  by (simp add: put_word_def)

lemma words_loop_Cons:
  "rows \<noteq> [] \<Longrightarrow> words_loop chars (wi # ws) rows = words_loop chars ws (put_word chars rows wi)"
proof -
  assume ne: "rows \<noteq> []"
  have a: "rows ! (length rows - 1) = last rows"
    by (rule last_index [OF ne])
  have b: "rows[length rows - 1 := last rows @ SP # wi] = butlast rows @ [last rows @ SP # wi]"
    using last_index_update [OF ne, of "SP # wi"] by (simp only: a)
  show ?thesis
    unfolding words_loop.simps put_word_def a b ..
qed

lemma words_loop_nonempty: "rows \<noteq> [] \<Longrightarrow> words_loop chars ws rows \<noteq> []"
  by (induction ws arbitrary: rows) (simp_all add: words_loop_Cons del: words_loop.simps(2))

lemma words_loop_snoc:
  "rows \<noteq> [] \<Longrightarrow>
   words_loop chars (ws @ [wi]) rows = put_word chars (words_loop chars ws rows) wi"
  by (induction ws arbitrary: rows) (simp_all add: words_loop_Cons del: words_loop.simps(2))

lemma put_word_prefix:
  "rows \<noteq> [] \<Longrightarrow> put_word chars (pre @ rows) wi = pre @ put_word chars rows wi"
  by (simp add: put_word_def butlast_append)

lemma words_loop_prefix:
  "rows \<noteq> [] \<Longrightarrow> words_loop chars ws (pre @ rows) = pre @ words_loop chars ws rows"
  by (induction ws arbitrary: rows)
     (simp_all add: words_loop_Cons put_word_prefix del: words_loop.simps(2))

lemma pars_loop_concat:
  "pars_loop chars ps rows = rows @ concat (map (paragraph_rows chars) ps)"
  by (induction ps arbitrary: rows)
     (simp_all add: Let_def paragraph_rows_def words_loop_prefix [of "[x]" for x, simplified])

lemma splitOnRows_paragraphs:
  "splitOnRows text chars = concat (map (paragraph_rows chars) (split_re nl text))"
  by (simp add: splitOnRows_def pars_loop_concat)

lemma paragraph_rows_nonempty [simp]: "paragraph_rows chars p \<noteq> []"
  by (simp add: paragraph_rows_def words_loop_nonempty)

lemma nl_space: "nl x \<Longrightarrow> space x"
  by (simp add: nl_def space_def)

lemma concat_map_butlast_last:
  "xs \<noteq> [] \<Longrightarrow> concat (map f xs) = concat (map f (butlast xs)) @ f (last xs)"
  by (induction xs rule: rev_induct) simp_all

lemma paragraph_rows_snoc:
  assumes "space c" and "\<forall>x\<in>set t. \<not> space x"
  shows "paragraph_rows chars (p @ c # t) = put_word chars (paragraph_rows chars p) t"
proof -
  have "split_re space (p @ c # t) = split_re space p @ [t]"
    using assms by (simp add: split_re_append_sep split_re_none)
  moreover have "tl (split_re space p @ [t]) = tl (split_re space p) @ [t]"
    by simp
  ultimately show ?thesis
    by (simp add: paragraph_rows_def words_loop_snoc)
qed

lemma splitOnRows_snoc:
  assumes c: "space c" "\<not> nl c" and t: "\<forall>x\<in>set t. \<not> space x"
  shows "splitOnRows (text @ c # t) chars = put_word chars (splitOnRows text chars) t"
proof -
  let ?P = "split_re nl text"
  let ?pr = "paragraph_rows chars"
  have "\<forall>x\<in>set (c # t). \<not> nl x"
    using c t nl_space by auto
  then have "split_re nl (text @ c # t) = butlast ?P @ [last ?P @ c # t]"
    by (rule split_re_append_last)
  then have "splitOnRows (text @ c # t) chars
      = concat (map ?pr (butlast ?P)) @ put_word chars (?pr (last ?P)) t"
    using c t by (simp add: splitOnRows_paragraphs paragraph_rows_snoc)
  also have "\<dots> = put_word chars (concat (map ?pr (butlast ?P)) @ ?pr (last ?P)) t"
    by (simp add: put_word_prefix)
  also have "concat (map ?pr (butlast ?P)) @ ?pr (last ?P) = concat (map ?pr ?P)"
    by (simp add: concat_map_butlast_last)
  finally show ?thesis
    by (simp add: splitOnRows_paragraphs)
qed

section \<open>The claims about the row wrapper\<close>

lemmas row_eval = splitOnRows_def str_def nl_def space_def SP_def Let_def

text \<open>
  C4. After a text, one more white-space character that is not a line break and one
  more token: the token is appended to the last row, after a single space, exactly when
  token length + row length + 1 is strictly below the budget, and otherwise it starts a
  new row. So \<open>"aa bb"\<close> gives \<open>["aa", "bb"]\<close> at budget 5 and \<open>["aa bb"]\<close> at 6.
\<close>

theorem splitOnRows_append_rule:
  "(space c \<and> \<not> nl c \<and> (\<forall>x\<in>set t. \<not> space x) \<longrightarrow>
      splitOnRows (text @ c # t) chars =
        (if int (length t) + int (length (last (splitOnRows text chars))) + 1 < chars
         then butlast (splitOnRows text chars) @ [last (splitOnRows text chars) @ SP # t]
         else splitOnRows text chars @ [t]))
   \<and> splitOnRows (str ''aa bb'') 5 = [str ''aa'', str ''bb'']
   \<and> splitOnRows (str ''aa bb'') 6 = [str ''aa bb'']"
proof (intro conjI impI)
  assume "space c \<and> \<not> nl c \<and> (\<forall>x\<in>set t. \<not> space x)"
  then have "splitOnRows (text @ c # t) chars = put_word chars (splitOnRows text chars) t"
    by (simp add: splitOnRows_snoc)
  then show "splitOnRows (text @ c # t) chars =
        (if int (length t) + int (length (last (splitOnRows text chars))) + 1 < chars
         then butlast (splitOnRows text chars) @ [last (splitOnRows text chars) @ SP # t]
         else splitOnRows text chars @ [t])"
    by (simp add: put_word_def)
next
  show "splitOnRows (str ''aa bb'') 5 = [str ''aa'', str ''bb'']"
    by (simp add: row_eval)
next
  show "splitOnRows (str ''aa bb'') 6 = [str ''aa bb'']"
    by (simp add: row_eval)
qed

theorem splitOnRows_append_rule_witness:
  "space 0x20 \<and> \<not> nl 0x20 \<and> \<not> list_ex space (str ''bb'')
   \<and> splitOnRows (str ''aa'' @ 0x20 # str ''bb'') 5 = [str ''aa'', str ''bb'']
   \<and> splitOnRows (str ''aa'' @ 0x20 # str ''bb'') 6 = [str ''aa bb'']"
  using splitOnRows_append_rule [of "0x20" "str ''bb''" "str ''aa''" 5]
        splitOnRows_append_rule [of "0x20" "str ''bb''" "str ''aa''" 6]
  by (simp add: row_eval)

text \<open>
  C7. Line breaks and empty paragraphs are kept: \<open>"a\n\nb"\<close> gives three rows, the
  middle one empty, and the empty text gives one empty row at every budget.
\<close>

theorem splitOnRows_line_breaks:
  "splitOnRows (str ''a\<newline>\<newline>b'') 40 = [str ''a'', str '''', str ''b'']
   \<and> (\<forall>N. splitOnRows (str '''') N = [str ''''])"
  by (simp add: row_eval)

lemma set_butlast_last: "rows \<noteq> [] \<Longrightarrow> set rows = set (butlast rows) \<union> {last rows}"
  by (induction rows rule: rev_induct) auto

lemma put_word_invariant:
  assumes rows: "\<forall>r\<in>set rows. Q r" and ne: "rows \<noteq> []" and t: "Q t"
    and app: "\<And>r. Q r \<Longrightarrow> int (length t) + int (length r) + 1 < chars \<Longrightarrow> Q (r @ SP # t)"
  shows "\<forall>r\<in>set (put_word chars rows t). Q r"
proof (cases "int (length t) + int (length (last rows)) + 1 < chars")
  case True
  have "Q (last rows)" using rows ne by simp
  then have "Q (last rows @ SP # t)" using True by (rule app)
  moreover have "\<forall>r\<in>set (butlast rows). Q r"
    using rows by (meson in_set_butlastD)
  ultimately show ?thesis using True by (simp add: put_word_def)
next
  case False
  then show ?thesis using rows t by (simp add: put_word_def)
qed

lemma words_loop_invariant:
  assumes "\<forall>r\<in>set rows. Q r" and "rows \<noteq> []" and "\<forall>t\<in>set ws. Q t"
    and "\<And>r t. Q r \<Longrightarrow> t \<in> set ws \<Longrightarrow> int (length t) + int (length r) + 1 < chars
           \<Longrightarrow> Q (r @ SP # t)"
  shows "\<forall>r\<in>set (words_loop chars ws rows). Q r"
  using assms
proof (induction ws arbitrary: rows)
  case Nil
  then show ?case by simp
next
  case (Cons t ws)
  have "\<forall>r\<in>set (put_word chars rows t). Q r"
    using Cons.prems by (intro put_word_invariant) auto
  then have "\<forall>r\<in>set (words_loop chars ws (put_word chars rows t)). Q r"
    using Cons.prems by (intro Cons.IH) auto
  then show ?case
    using Cons.prems(2) by (simp add: words_loop_Cons del: words_loop.simps(2))
qed

lemma hd_tl_set: "xs \<noteq> [] \<Longrightarrow> set xs = insert (hd xs) (set (tl xs))"
  by (cases xs) auto

lemma paragraph_rows_invariant:
  assumes tok: "\<forall>t\<in>set (split_re space p). Q t"
    and app: "\<And>r t. Q r \<Longrightarrow> t \<in> set (split_re space p)
           \<Longrightarrow> int (length t) + int (length r) + 1 < chars \<Longrightarrow> Q (r @ SP # t)"
  shows "\<forall>r\<in>set (paragraph_rows chars p). Q r"
proof -
  have s: "set (split_re space p) = insert (hd (split_re space p)) (set (tl (split_re space p)))"
    by (rule hd_tl_set) simp
  show ?thesis
    unfolding paragraph_rows_def
  proof (rule words_loop_invariant)
    show "\<forall>r\<in>set [hd (split_re space p)]. Q r" using tok s by simp
    show "[hd (split_re space p)] \<noteq> []" by simp
    show "\<forall>t\<in>set (tl (split_re space p)). Q t" using tok s by blast
    show "\<And>r t. Q r \<Longrightarrow> t \<in> set (tl (split_re space p))
        \<Longrightarrow> int (length t) + int (length r) + 1 < chars \<Longrightarrow> Q (r @ SP # t)"
      using app s by blast
  qed
qed

lemma splitOnRows_invariant:
  assumes tok: "\<forall>p\<in>set (split_re nl text). \<forall>t\<in>set (split_re space p). Q t"
    and app: "\<And>r t. Q r \<Longrightarrow> \<forall>x\<in>set t. \<not> space x
           \<Longrightarrow> int (length t) + int (length r) + 1 < chars \<Longrightarrow> Q (r @ SP # t)"
  shows "\<forall>r\<in>set (splitOnRows text chars). Q r"
proof -
  have "\<forall>r\<in>set (paragraph_rows chars p). Q r" if "p \<in> set (split_re nl text)" for p
  proof (rule paragraph_rows_invariant)
    show "\<forall>t\<in>set (split_re space p). Q t" using tok that by blast
    show "\<And>r t. Q r \<Longrightarrow> t \<in> set (split_re space p)
        \<Longrightarrow> int (length t) + int (length r) + 1 < chars \<Longrightarrow> Q (r @ SP # t)"
      using app split_re_pieces by blast
  qed
  then show ?thesis
    by (auto simp: splitOnRows_paragraphs)
qed

lemma SP_space: "space SP"
  by (simp add: SP_def space_def)

lemma SP_not_nl: "\<not> nl SP"
  by (simp add: SP_def nl_def)

text \<open>
  C3, as stated, fails: a token is never broken, so a row that is a single token can be
  longer than the budget. At budget 3 the text \<open>"abcdef"\<close> is one row of length 6.
\<close>

theorem splitOnRows_long_row_counterexample:
  "splitOnRows (str ''abcdef'') 3 = [str ''abcdef'']
   \<and> \<not> int (length (str ''abcdef'')) \<le> 3 - 1"
  by (simp add: row_eval)

text \<open>
  C3, amended. Every row is at most budget - 1 long, or it is a single token of the
  text, free of white space, which is placed whole whatever its length.
\<close>

theorem splitOnRows_row_length:
  "r \<in> set (splitOnRows text chars) \<Longrightarrow>
   int (length r) \<le> chars - 1 \<or>
   (r \<in> set (concat (map (split_re space) (split_re nl text))) \<and> \<not> list_ex space r)"
proof -
  let ?T = "set (concat (map (split_re space) (split_re nl text)))"
  let ?Q = "\<lambda>r. int (length r) \<le> chars - 1 \<or> (r \<in> ?T \<and> \<not> list_ex space r)"
  have "\<forall>r\<in>set (splitOnRows text chars). ?Q r"
  proof (rule splitOnRows_invariant)
    show "\<forall>p\<in>set (split_re nl text). \<forall>t\<in>set (split_re space p).
        int (length t) \<le> chars - 1 \<or> (t \<in> ?T \<and> \<not> list_ex space t)"
      using split_re_pieces by (auto simp: list_ex_iff)
  next
    fix r t :: jsstring
    assume "int (length t) + int (length r) + 1 < chars"
    then show "int (length (r @ SP # t)) \<le> chars - 1 \<or>
        (r @ SP # t \<in> ?T \<and> \<not> list_ex space (r @ SP # t))"
      by simp
  qed
  then show "r \<in> set (splitOnRows text chars) \<Longrightarrow> ?Q r"
    by blast
qed

theorem splitOnRows_row_length_witness:
  "str ''aa b'' \<in> set (splitOnRows (str ''abcdef aa b'') 5)
   \<and> int (length (str ''aa b'')) \<le> 5 - 1
   \<and> str ''abcdef'' \<in> set (splitOnRows (str ''abcdef aa b'') 5)
   \<and> str ''abcdef'' \<in> set (concat (map (split_re space) (split_re nl (str ''abcdef aa b''))))"
  using splitOnRows_row_length [of "str ''aa b''" "str ''abcdef aa b''" 5]
        splitOnRows_row_length [of "str ''abcdef''" "str ''abcdef aa b''" 5]
  by (simp add: row_eval)

lemma put_word_tokens:
  assumes "rows \<noteq> []" and "\<forall>x\<in>set t. \<not> re x" and "re SP"
  shows "concat (map (split_re re) (put_word chars rows t))
       = concat (map (split_re re) rows) @ [t]"
proof -
  have "concat (map (split_re re) rows)
      = concat (map (split_re re) (butlast rows)) @ split_re re (last rows)"
    using assms(1) by (rule concat_map_butlast_last)
  then show ?thesis
    using assms by (simp add: put_word_def split_re_append_sep split_re_none)
qed

lemma words_loop_tokens:
  assumes "rows \<noteq> []" and "\<forall>t\<in>set ws. \<forall>x\<in>set t. \<not> re x" and "re SP"
  shows "concat (map (split_re re) (words_loop chars ws rows))
       = concat (map (split_re re) rows) @ ws"
  using assms
proof (induction ws arbitrary: rows)
  case Nil
  then show ?case by simp
next
  case (Cons t ws)
  then show ?case
    by (simp add: words_loop_Cons put_word_tokens del: words_loop.simps(2))
qed

lemma not_space_not_SP: "\<not> space x \<Longrightarrow> x \<noteq> SP"
  using SP_space by blast

lemma paragraph_rows_tokens:
  "concat (map (split_re (\<lambda>c. c = SP)) (paragraph_rows chars p)) = split_re space p"
proof -
  let ?w = "split_re space p"
  have free: "\<forall>t\<in>set ?w. \<forall>x\<in>set t. x \<noteq> SP"
    using split_re_pieces not_space_not_SP by blast
  have s: "set ?w = insert (hd ?w) (set (tl ?w))"
    by (rule hd_tl_set) simp
  have "concat (map (split_re (\<lambda>c. c = SP)) (words_loop chars (tl ?w) [hd ?w]))
      = concat (map (split_re (\<lambda>c. c = SP)) [hd ?w]) @ tl ?w"
    using free s by (intro words_loop_tokens) auto
  moreover have "split_re (\<lambda>c. c = SP) (hd ?w) = [hd ?w]"
    using free s by (intro split_re_none) auto
  ultimately show ?thesis
    by (simp add: paragraph_rows_def)
qed

lemma concat_map_concat_map:
  "concat (map g (concat (map f ps))) = concat (map (\<lambda>p. concat (map g (f p))) ps)"
  by (induction ps) simp_all

lemma hd_concat_map:
  "xs \<noteq> [] \<Longrightarrow> f (hd xs) \<noteq> [] \<Longrightarrow> hd (concat (map f xs)) = hd (f (hd xs))"
  by (cases xs) auto

text \<open>
  C6. No token is broken: the rows are the paragraphs' rows in order; cutting the rows of
  a paragraph at their spaces gives back exactly the paragraph's tokens, in order; the
  first piece of a paragraph's first row is the paragraph's first token, at every budget;
  and so the rows of the whole text, cut at their spaces, are the tokens of the text.
\<close>

theorem splitOnRows_tokens_whole:
  "splitOnRows text chars = concat (map (paragraph_rows chars) (split_re nl text))
   \<and> (\<forall>p. concat (map (split_re (\<lambda>c. c = SP)) (paragraph_rows chars p)) = split_re space p)
   \<and> (\<forall>p. hd (split_re (\<lambda>c. c = SP) (hd (paragraph_rows chars p))) = hd (split_re space p))
   \<and> concat (map (split_re (\<lambda>c. c = SP)) (splitOnRows text chars))
       = concat (map (split_re space) (split_re nl text))"
proof (intro conjI allI)
  show "splitOnRows text chars = concat (map (paragraph_rows chars) (split_re nl text))"
    by (rule splitOnRows_paragraphs)
next
  fix p
  show "concat (map (split_re (\<lambda>c. c = SP)) (paragraph_rows chars p)) = split_re space p"
    by (rule paragraph_rows_tokens)
next
  fix p
  have "hd (concat (map (split_re (\<lambda>c. c = SP)) (paragraph_rows chars p)))
      = hd (split_re (\<lambda>c. c = SP) (hd (paragraph_rows chars p)))"
    by (rule hd_concat_map) simp_all
  then show "hd (split_re (\<lambda>c. c = SP) (hd (paragraph_rows chars p))) = hd (split_re space p)"
    by (simp add: paragraph_rows_tokens)
next
  show "concat (map (split_re (\<lambda>c. c = SP)) (splitOnRows text chars))
      = concat (map (split_re space) (split_re nl text))"
    by (simp add: splitOnRows_paragraphs concat_map_concat_map paragraph_rows_tokens)
qed

lemma LF_nl: "nl LF"
  by (simp add: LF_def nl_def)

lemma split_re_join_nl:
  "rs \<noteq> [] \<Longrightarrow> \<forall>r\<in>set rs. \<forall>x\<in>set r. \<not> nl x \<Longrightarrow> split_re nl (join_nl rs) = rs"
proof (induction rs rule: join_nl.induct)
  case 1
  then show ?case by simp
next
  case (2 r)
  then show ?case by (simp add: split_re_none)
next
  case (3 r r' rs)
  then show ?case
    by (simp add: split_re_append_sep [of nl LF] LF_nl split_re_none)
qed

lemma paragraph_rows_token:
  "\<forall>x\<in>set t. \<not> space x \<Longrightarrow> paragraph_rows chars t = [t]"
  by (simp add: paragraph_rows_def split_re_none)

lemma splitOnRows_rows_fixed:
  "\<forall>r\<in>set (splitOnRows text chars). paragraph_rows chars r = [r] \<and> (\<forall>x\<in>set r. \<not> nl x)"
proof (rule splitOnRows_invariant)
  show "\<forall>p\<in>set (split_re nl text). \<forall>t\<in>set (split_re space p).
      paragraph_rows chars t = [t] \<and> (\<forall>x\<in>set t. \<not> nl x)"
    using split_re_pieces nl_space by (metis paragraph_rows_token)
next
  fix r t :: jsstring
  assume r: "paragraph_rows chars r = [r] \<and> (\<forall>x\<in>set r. \<not> nl x)"
    and t: "\<forall>x\<in>set t. \<not> space x"
    and fits: "int (length t) + int (length r) + 1 < chars"
  have "paragraph_rows chars (r @ SP # t) = put_word chars [r] t"
    using r t by (simp add: paragraph_rows_snoc [of SP] SP_space)
  also have "\<dots> = [r @ SP # t]"
    using fits by (simp add: put_word_def)
  finally have "paragraph_rows chars (r @ SP # t) = [r @ SP # t]" .
  moreover have "\<forall>x\<in>set (r @ SP # t). \<not> nl x"
    using r t nl_space SP_not_nl by auto
  ultimately show "paragraph_rows chars (r @ SP # t) = [r @ SP # t]
      \<and> (\<forall>x\<in>set (r @ SP # t). \<not> nl x)"
    by blast
qed

lemma splitOnRows_nonempty: "splitOnRows text chars \<noteq> []"
proof -
  obtain p ps where "split_re nl text = p # ps"
    by (cases "split_re nl text") simp_all
  then show ?thesis
    by (simp add: splitOnRows_paragraphs)
qed

lemma concat_map_singletons: "\<forall>r\<in>set rs. f r = [r] \<Longrightarrow> concat (map f rs) = rs"
  by (induction rs) simp_all

text \<open>
  C8. Wrapping is idempotent: the rows of a text, joined with line breaks and wrapped
  again at the same budget, are the same rows, for every text and every budget.
\<close>

theorem splitOnRows_idempotent:
  "splitOnRows (join_nl (splitOnRows text chars)) chars = splitOnRows text chars"
proof -
  let ?R = "splitOnRows text chars"
  have fixed: "\<forall>r\<in>set ?R. paragraph_rows chars r = [r]"
    and clean: "\<forall>r\<in>set ?R. \<forall>x\<in>set r. \<not> nl x"
    using splitOnRows_rows_fixed [of "text" chars] by (blast+)
  have "split_re nl (join_nl ?R) = ?R"
    using splitOnRows_nonempty clean by (rule split_re_join_nl)
  then have "splitOnRows (join_nl ?R) chars = concat (map (paragraph_rows chars) ?R)"
    by (simp add: splitOnRows_paragraphs)
  also have "\<dots> = ?R"
    using fixed by (rule concat_map_singletons)
  finally show ?thesis .
qed

lemma split_re_length: "length (split_re re s) = Suc (length (filter re s))"
  by (induction s) (auto split: list.splits)

lemma tokens_joined:
  "hd (split_re space s) @ concat (map ((#) SP) (tl (split_re space s)))
     = map (\<lambda>c. if space c then SP else c) s"
proof (induction s)
  case Nil
  then show ?case by simp
next
  case (Cons c s)
  obtain a as where s: "split_re space s = a # as"
    by (cases "split_re space s") simp_all
  with Cons show ?case by simp
qed

lemma words_loop_length: "rows \<noteq> [] \<Longrightarrow> length rows \<le> length (words_loop chars ws rows)"
proof (induction ws arbitrary: rows)
  case Nil
  then show ?case by simp
next
  case (Cons t ws)
  have "length rows \<le> length (put_word chars rows t)"
    using Cons.prems by (simp add: put_word_def)
  also have "\<dots> \<le> length (words_loop chars ws (put_word chars rows t))"
    by (rule Cons.IH) simp
  finally show ?case
    using Cons.prems by (simp add: words_loop_Cons del: words_loop.simps(2))
qed

lemma words_loop_single:
  "words_loop chars ws [r0] = [r] \<Longrightarrow> r = r0 @ concat (map ((#) SP) ws)"
proof (induction ws arbitrary: r0)
  case Nil
  then show ?case by simp
next
  case (Cons t ws)
  have step: "words_loop chars ws (put_word chars [r0] t) = [r]"
    using Cons.prems by (simp add: words_loop_Cons del: words_loop.simps(2))
  show ?case
  proof (cases "int (length t) + int (length r0) + 1 < chars")
    case True
    then have "words_loop chars ws [r0 @ SP # t] = [r]"
      using step by (simp add: put_word_def)
    then have "r = (r0 @ SP # t) @ concat (map ((#) SP) ws)"
      by (rule Cons.IH)
    then show ?thesis by simp
  next
    case False
    then have "words_loop chars ws [r0, t] = [r]"
      using step by (simp add: put_word_def)
    moreover have "length [r0, t] \<le> length (words_loop chars ws [r0, t])"
      by (rule words_loop_length) simp
    ultimately show ?thesis by simp
  qed
qed

lemma paragraph_rows_single:
  "paragraph_rows chars p = [r] \<Longrightarrow> r = map (\<lambda>c. if space c then SP else c) p"
  unfolding paragraph_rows_def
  by (drule words_loop_single) (simp add: tokens_joined)

lemma length_concat_rows:
  "length ps \<le> length (concat (map (paragraph_rows chars) ps))"
proof (induction ps)
  case Nil
  then show ?case by simp
next
  case (Cons p ps)
  have "1 \<le> length (paragraph_rows chars p)"
    by (cases "paragraph_rows chars p") simp_all
  with Cons show ?case by simp
qed

lemma split_re_single: "split_re re s = [p] \<Longrightarrow> split_re re s = [s]"
proof -
  assume "split_re re s = [p]"
  then have "length (filter re s) = 0"
    using split_re_length [of re s] by simp
  then have "\<forall>x\<in>set s. \<not> re x"
    by (simp add: filter_empty_conv)
  then show ?thesis by (rule split_re_none)
qed

lemma splitOnRows_single:
  assumes "splitOnRows text chars = [r]"
  shows "paragraph_rows chars text = [r]"
proof -
  let ?P = "split_re nl text"
  have "length ?P \<le> length (splitOnRows text chars)"
    by (simp add: splitOnRows_paragraphs length_concat_rows)
  then have "length ?P = 1"
    using assms by (cases ?P) simp_all
  then obtain p where "?P = [p]"
    by (cases ?P) simp_all
  then have "?P = [text]" by (rule split_re_single)
  then show ?thesis
    using assms by (simp add: splitOnRows_paragraphs)
qed

text \<open>
  C2, as stated, fails: \<open>/\s/\<close> matches one character, so a run of two spaces is two
  delimiters with an empty token between them, and the row keeps both spaces.
\<close>

theorem splitOnRows_runs_counterexample:
  "splitOnRows (str ''a  b'') 40 = [str ''a  b'']
   \<and> str ''a  b'' \<noteq> str ''a b''
   \<and> split_re space (str ''a  b'') = [str ''a'', str '''', str ''b'']"
  by (simp add: row_eval)

text \<open>
  C2, amended. Every single white-space character is a delimiter, so a paragraph has one
  token more than it has white-space characters; and when a paragraph's tokens all fit
  in one row, that row is the paragraph with each white-space character replaced by one
  space: a tab becomes a space, two spaces stay two spaces. The same holds of a text
  whose rows are one row.
\<close>

theorem splitOnRows_whitespace:
  "length (split_re space p) = Suc (length (filter space p))
   \<and> (paragraph_rows chars p = [r] \<longrightarrow> r = map (\<lambda>c. if space c then SP else c) p)
   \<and> (splitOnRows text chars = [r'] \<longrightarrow> r' = map (\<lambda>c. if space c then SP else c) text)"
  using split_re_length paragraph_rows_single splitOnRows_single by blast

theorem splitOnRows_whitespace_witness:
  "paragraph_rows 40 [97, 9, 98] = [str ''a b'']
   \<and> str ''a b'' = map (\<lambda>c. if space c then SP else c) [97, 9, 98]
   \<and> splitOnRows (str ''a  b'') 40 = [str ''a  b'']
   \<and> str ''a  b'' = map (\<lambda>c. if space c then SP else c) (str ''a  b'')"
  using splitOnRows_whitespace [of "[97, 9, 98]" 40 "str ''a b''" "str ''a  b''" "str ''a  b''"]
  by (simp add: row_eval paragraph_rows_def)

section \<open>Construction and key handling\<close>

lemmas ctor_eval = constructor_def spread_def getMaxLineChars_def Math_abs_def
  DEFAULT_LINE_CHARS_def onHtmlInputKeyDown'_def ENTER_def

text \<open>
  C10. The commit-on-Enter flag is set only by the boolean \<open>true\<close>: for every other
  value of the option, and when the option or the whole record is absent, the flag is
  false and Enter goes to the multi-line handler, which leaves the line break to the
  text area. With \<open>true\<close> the flag is set and Enter goes to the single-line handler.
\<close>

theorem closeOnEnter_strict:
  "(closeOnEnter (spread options) \<noteq> JBool True \<longrightarrow>
      \<not> closeOnEnter' (constructor this options)
      \<and> onHtmlInputKeyDown' (constructor this options) ENTER
          = FieldMultilineInput_onHtmlInputKeyDown)
   \<and> (closeOnEnter (spread options) = JBool True \<longrightarrow>
      closeOnEnter' (constructor this options)
      \<and> onHtmlInputKeyDown' (constructor this options) ENTER
          = FieldTextInput_onHtmlInputKeyDown)
   \<and> closeOnEnter (spread None) \<noteq> JBool True"
  by (simp add: constructor_def onHtmlInputKeyDown'_def spread_def Let_def)

theorem closeOnEnter_strict_witness:
  "\<not> closeOnEnter' (constructor example_field
        (Some \<lparr>maxLineChars = JUndefined, closeOnEnter = JNum 1\<rparr>))
   \<and> onHtmlInputKeyDown' (constructor example_field
        (Some \<lparr>maxLineChars = JUndefined, closeOnEnter = JNum 1\<rparr>)) ENTER
       = FieldMultilineInput_onHtmlInputKeyDown
   \<and> \<not> closeOnEnter' (constructor example_field
        (Some \<lparr>maxLineChars = JUndefined, closeOnEnter = JStr (str ''true'')\<rparr>))
   \<and> \<not> closeOnEnter' (constructor example_field None)
   \<and> closeOnEnter' (constructor example_field
        (Some \<lparr>maxLineChars = JUndefined, closeOnEnter = JBool True\<rparr>))
   \<and> onHtmlInputKeyDown' (constructor example_field
        (Some \<lparr>maxLineChars = JUndefined, closeOnEnter = JBool True\<rparr>)) ENTER
       = FieldTextInput_onHtmlInputKeyDown"
  using closeOnEnter_strict [of "Some \<lparr>maxLineChars = JUndefined, closeOnEnter = JNum 1\<rparr>" example_field]
    closeOnEnter_strict [of "Some \<lparr>maxLineChars = JUndefined, closeOnEnter = JStr (str ''true'')\<rparr>" example_field]
    closeOnEnter_strict [of None example_field]
    closeOnEnter_strict [of "Some \<lparr>maxLineChars = JUndefined, closeOnEnter = JBool True\<rparr>" example_field]
  by (simp add: spread_def)

lemma unat_digit_char: "d < 10 \<Longrightarrow> unat (digit_char d) = 48 + d"
proof -
  assume d: "d < 10"
  have "unat (of_nat (48 + d) :: 16 word) = (48 + d) mod 2 ^ LENGTH(16)"
    by (rule unat_of_nat)
  also have "\<dots> = 48 + d"
    using d by simp
  finally show ?thesis
    by (simp only: digit_char_def)
qed

lemma digit_char_is_digit: "d < 10 \<Longrightarrow> is_digit (digit_char d)"
  by (simp add: is_digit_def word_le_nat_alt unat_digit_char)

lemma digit_value_digit_char: "d < 10 \<Longrightarrow> digit_value (digit_char d) = d"
  by (simp add: digit_value_def unat_digit_char)

lemma is_digit_not_space: "is_digit c \<Longrightarrow> \<not> space c"
  by (auto simp: is_digit_def space_def word_le_nat_alt)

lemma is_digit_not_sign: "is_digit c \<Longrightarrow> c \<noteq> 0x2B \<and> c \<noteq> 0x2D"
  by (auto simp: is_digit_def word_le_nat_alt)

lemma digits_nonempty: "digits n \<noteq> []"
  by (subst digits.simps) simp

lemma digits_all: "\<forall>c\<in>set (digits n). is_digit c"
proof (induction n rule: digits.induct)
  case (1 n)
  show ?case
  proof (cases "n < 10")
    case True
    then show ?thesis
      by (subst digits.simps) (simp add: digit_char_is_digit)
  next
    case False
    then show ?thesis
      using 1 by (subst digits.simps) (simp add: digit_char_is_digit)
  qed
qed

lemma digits_value: "foldl (\<lambda>a c. 10 * a + digit_value c) 0 (digits n) = n"
proof (induction n rule: digits.induct)
  case (1 n)
  show ?case
  proof (cases "n < 10")
    case True
    then show ?thesis
      by (subst digits.simps) (simp add: digit_value_digit_char)
  next
    case False
    then show ?thesis
      using 1 by (subst digits.simps) (simp add: digit_value_digit_char)
  qed
qed

lemma hd_digits: "is_digit (hd (digits n))"
  using digits_all [of n] digits_nonempty [of n] by (cases "digits n") simp_all

lemma dropWhile_space_digits: "dropWhile space (digits n) = digits n"
  using hd_digits [of n] digits_nonempty [of n]
  by (cases "digits n") (simp_all add: is_digit_not_space)

lemma takeWhile_digits: "takeWhile is_digit (digits n) = digits n"
  using digits_all by (simp add: takeWhile_eq_all_conv)

lemma parseInt_JNum: "parseInt (JNum n) = Some (sint n)"
proof (cases "sint n < 0")
  case True
  have "\<not> space 0x2D" by (simp add: space_def)
  then show ?thesis
    using True by (simp add: parseInt_def Let_def takeWhile_digits digits_nonempty digits_value)
next
  case False
  have "hd (digits (nat (sint n))) \<noteq> 0x2B \<and> hd (digits (nat (sint n))) \<noteq> 0x2D"
    using hd_digits is_digit_not_sign by blast
  then show ?thesis
    using False
    by (simp add: parseInt_def Let_def dropWhile_space_digits takeWhile_digits
        digits_nonempty digits_value)
qed

lemmas parse_eval = parseInt_def str_def space_def is_digit_def digit_value_def Let_def

text \<open>
  C1, as stated, fails at \<open>maxLineChars: -5\<close>: \<open>Math.abs\<close> turns it into the budget 5,
  while no option gives 40.
\<close>

theorem constructor_negative_counterexample:
  "getMaxLineChars (constructor example_field
      (Some \<lparr>maxLineChars = JNum (- 5), closeOnEnter = JUndefined\<rparr>)) = 5
   \<and> getMaxLineChars (constructor example_field None) = 40"
proof -
  have "parseInt JUndefined = None"
    by (simp add: parse_eval)
  then show ?thesis
    by (simp add: ctor_eval parseInt_JNum)
qed

text \<open>
  C1, amended. The budget is at least 1. A safe integer \<open>n\<close>, from \<open>- (2 ^ 53)\<close> to
  \<open>2 ^ 53 - 1\<close>, gives \<open>|n|\<close>, so a negative value gives its absolute value, and 0
  gives the default 40. A value that \<open>parseInt\<close> does not read as a number gives 40, as
  do a missing option and the string \<open>"x"\<close>.
\<close>

theorem constructor_budget:
  "1 \<le> getMaxLineChars (constructor this options)
   \<and> (maxLineChars (spread options) = JNum n \<longrightarrow>
        getMaxLineChars (constructor this options)
        = (if sint n = 0 then 40 else \<bar>sint n\<bar>))
   \<and> (parseInt (maxLineChars (spread options)) = None \<longrightarrow>
        getMaxLineChars (constructor this options) = 40)
   \<and> getMaxLineChars (constructor this None) = 40
   \<and> getMaxLineChars (constructor this
        (Some \<lparr>maxLineChars = JStr (str ''x''), closeOnEnter = c\<rparr>)) = 40"
proof (intro conjI impI)
  show "1 \<le> getMaxLineChars (constructor this options)"
    by (cases "parseInt (maxLineChars (spread options))")
       (auto simp: constructor_def getMaxLineChars_def Math_abs_def DEFAULT_LINE_CHARS_def Let_def)
next
  assume "maxLineChars (spread options) = JNum n"
  then show "getMaxLineChars (constructor this options)
      = (if sint n = 0 then 40 else \<bar>sint n\<bar>)"
    by (simp add: constructor_def getMaxLineChars_def Math_abs_def DEFAULT_LINE_CHARS_def
        Let_def parseInt_JNum)
next
  assume "parseInt (maxLineChars (spread options)) = None"
  then show "getMaxLineChars (constructor this options) = 40"
    by (simp add: constructor_def getMaxLineChars_def Math_abs_def DEFAULT_LINE_CHARS_def Let_def)
next
  have "parseInt JUndefined = None"
    by (simp add: parse_eval)
  then show "getMaxLineChars (constructor this None) = 40"
    by (simp add: ctor_eval)
next
  have "parseInt (JStr (str ''x'')) = None"
    by (simp add: parse_eval)
  then show "getMaxLineChars (constructor this
      (Some \<lparr>maxLineChars = JStr (str ''x''), closeOnEnter = c\<rparr>)) = 40"
    by (simp add: ctor_eval)
qed

theorem constructor_budget_witness:
  "getMaxLineChars (constructor example_field
      (Some \<lparr>maxLineChars = JNum (- 5), closeOnEnter = JUndefined\<rparr>)) = 5
   \<and> getMaxLineChars (constructor example_field
      (Some \<lparr>maxLineChars = JNum 0, closeOnEnter = JUndefined\<rparr>)) = 40
   \<and> parseInt (JStr (str ''px'')) = None
   \<and> getMaxLineChars (constructor example_field
      (Some \<lparr>maxLineChars = JStr (str ''px''), closeOnEnter = JUndefined\<rparr>)) = 40
   \<and> parseInt JNaN = None
   \<and> getMaxLineChars (constructor example_field
      (Some \<lparr>maxLineChars = JNaN, closeOnEnter = JUndefined\<rparr>)) = 40"
proof -
  have "parseInt (JStr (str ''px'')) = None" and "parseInt JNaN = None"
    by (simp_all add: parse_eval)
  then show ?thesis
    using constructor_budget [of example_field
        "Some \<lparr>maxLineChars = JNum (- 5), closeOnEnter = JUndefined\<rparr>" "- 5" JUndefined]
      constructor_budget [of example_field
        "Some \<lparr>maxLineChars = JNum 0, closeOnEnter = JUndefined\<rparr>" 0 JUndefined]
      constructor_budget [of example_field
        "Some \<lparr>maxLineChars = JStr (str ''px''), closeOnEnter = JUndefined\<rparr>" 0 JUndefined]
      constructor_budget [of example_field
        "Some \<lparr>maxLineChars = JNaN, closeOnEnter = JUndefined\<rparr>" 0 JUndefined]
    by (simp add: spread_def)
qed

section \<open>Sizing\<close>

lemma nodes_loop_width:
  "fst (nodes_loop m nodes i (w, h)) = fold max (map (getTextWidth m) nodes) w"
proof (induction nodes arbitrary: i w h)
  case Nil
  then show ?case by simp
next
  case (Cons tspan nodes)
  have "(if w < getTextWidth m tspan then getTextWidth m tspan else w) = max (getTextWidth m tspan) w"
    by (simp add: max_def)
  then show ?case
    by (simp add: Cons.IH Let_def)
qed

lemma nodes_loop_height:
  "snd (nodes_loop m nodes i (w, h)) =
     h + real (length nodes) * FIELD_TEXT_HEIGHT m
       + (real (length nodes) - (if i = 0 \<and> nodes \<noteq> [] then 1 else 0))
         * FIELD_BORDER_RECT_Y_PADDING m"
proof (induction nodes arbitrary: i w h)
  case Nil
  then show ?case by simp
next
  case (Cons tspan nodes)
  show ?case
    by (simp add: Cons.IH Let_def algebra_simps)
qed

lemma lines_loop_width:
  "lines_loop m maxLen ls w = fold max (map (editor_line_width m maxLen) ls) w"
proof (induction ls arbitrary: w)
  case Nil
  then show ?case by simp
next
  case (Cons l ls)
  have "(if w < editor_line_width m maxLen l then editor_line_width m maxLen l else w)
      = max (editor_line_width m maxLen l) w"
    by (simp add: max_def)
  then show ?case
    by (simp add: Cons.IH Let_def editor_line_width_def [symmetric])
qed

lemma fold_max_Max: "fold max xs (w :: real) = Max (insert w (set xs))"
  using Max.set_eq_fold [of w xs] by simp

lemma fold_max_ge: "(w :: real) \<le> fold max xs w"
  by (simp add: fold_max_Max)

lemma updateSize_width:
  "size_width (updateSize' m this) =
     (let w = fold max (map (getTextWidth m) (textGroup' this)) 0;
          w' = (if isBeingEdited' this
                then fold max (map (editor_line_width m (maxDisplayLength this))
                       (splitOnRows (value' this) (maxLineChars' this))) w
                else w)
      in if borderRect' this then w' + FIELD_BORDER_RECT_X_PADDING m * 2 else w')"
proof -
  obtain w h where n: "nodes_loop m (textGroup' this) 0 (0, 0) = (w, h)"
    by (cases "nodes_loop m (textGroup' this) 0 (0, 0)")
  have "w = fold max (map (getTextWidth m) (textGroup' this)) 0"
    using nodes_loop_width [of m "textGroup' this" 0 0 0] n by simp
  then show ?thesis
    by (simp add: updateSize'_def n Let_def lines_loop_width)
qed

lemma updateSize_height:
  "size_height (updateSize' m this) =
     (let h = real (length (textGroup' this)) * FIELD_TEXT_HEIGHT m
                + (real (length (textGroup' this)) - (if textGroup' this \<noteq> [] then 1 else 0))
                  * FIELD_BORDER_RECT_Y_PADDING m
      in if borderRect' this then h + FIELD_BORDER_RECT_Y_PADDING m * 2 else h)"
proof -
  obtain w h where n: "nodes_loop m (textGroup' this) 0 (0, 0) = (w, h)"
    by (cases "nodes_loop m (textGroup' this) 0 (0, 0)")
  have "h = real (length (textGroup' this)) * FIELD_TEXT_HEIGHT m
                + (real (length (textGroup' this)) - (if textGroup' this \<noteq> [] then 1 else 0))
                  * FIELD_BORDER_RECT_Y_PADDING m"
    using nodes_loop_height [of m "textGroup' this" 0 0 0] n by simp
  then show ?thesis
    by (simp add: updateSize'_def n Let_def)
qed

lemma render_height:
  "size_height (render' m this) =
     size_height (updateSize' m (this\<lparr>textGroup' :=
       map (map (\<lambda>c. if space c then NBSP else c))
         (splitOnRows (getDisplayText' this) (maxLineChars' this))\<rparr>))"
  by (simp add: render'_def Let_def)

text \<open>
  C5. For every field and all metrics, the width that \<open>updateSize_\<close> computes while
  the field is being edited is at least the width it computes when it is not, for the
  same nodes, value, budget and border. The width in edit mode is the maximum of 0 (the initial \<open>totalWidth\<close>), the widths of the
  nodes and the widths measured for the re-wrapped, truncated rows of the value, plus
  the border padding when there is a border; when the fast measurement is never
  negative, the 0 can be left out.
\<close>

theorem updateSize_edit_width:
  "size_width (updateSize' m (this\<lparr>isBeingEdited' := False\<rparr>))
     \<le> size_width (updateSize' m (this\<lparr>isBeingEdited' := True\<rparr>))
   \<and> size_width (updateSize' m (this\<lparr>isBeingEdited' := True\<rparr>))
     = Max (insert 0 (getTextWidth m ` set (textGroup' this)
            \<union> editor_line_width m (maxDisplayLength this)
                ` set (splitOnRows (value' this) (maxLineChars' this))))
       + (if borderRect' this then FIELD_BORDER_RECT_X_PADDING m * 2 else 0)
   \<and> ((\<forall>s. 0 \<le> getFastTextWidth m s) \<longrightarrow>
       size_width (updateSize' m (this\<lparr>isBeingEdited' := True\<rparr>))
       = Max (getTextWidth m ` set (textGroup' this)
            \<union> editor_line_width m (maxDisplayLength this)
                ` set (splitOnRows (value' this) (maxLineChars' this)))
         + (if borderRect' this then FIELD_BORDER_RECT_X_PADDING m * 2 else 0))"
proof (intro conjI impI)
  show "size_width (updateSize' m (this\<lparr>isBeingEdited' := False\<rparr>))
     \<le> size_width (updateSize' m (this\<lparr>isBeingEdited' := True\<rparr>))"
    by (simp add: updateSize_width Let_def fold_max_ge)
next
  let ?A = "getTextWidth m ` set (textGroup' this)"
  let ?B = "editor_line_width m (maxDisplayLength this)
      ` set (splitOnRows (value' this) (maxLineChars' this))"
  have "fold max (map (editor_line_width m (maxDisplayLength this))
          (splitOnRows (value' this) (maxLineChars' this)))
          (fold max (map (getTextWidth m) (textGroup' this)) 0)
        = Max (insert 0 (?A \<union> ?B))"
  proof -
    have "fold max (map (editor_line_width m (maxDisplayLength this))
          (splitOnRows (value' this) (maxLineChars' this)))
          (fold max (map (getTextWidth m) (textGroup' this)) 0)
        = fold max (map (getTextWidth m) (textGroup' this)
            @ map (editor_line_width m (maxDisplayLength this))
                (splitOnRows (value' this) (maxLineChars' this))) 0"
      by simp
    also have "\<dots> = Max (insert 0 (?A \<union> ?B))"
      by (simp only: fold_max_Max set_append set_map)
    finally show ?thesis .
  qed
  then show eq: "size_width (updateSize' m (this\<lparr>isBeingEdited' := True\<rparr>))
     = Max (insert 0 (?A \<union> ?B))
       + (if borderRect' this then FIELD_BORDER_RECT_X_PADDING m * 2 else 0)"
    by (simp add: updateSize_width Let_def)
  assume pos: "\<forall>s. 0 \<le> getFastTextWidth m s"
  obtain r where r: "r \<in> set (splitOnRows (value' this) (maxLineChars' this))"
    using splitOnRows_nonempty [of "value' this" "maxLineChars' this"]
    by (cases "splitOnRows (value' this) (maxLineChars' this)") auto
  have fin: "finite (?A \<union> ?B)" and ne: "?A \<union> ?B \<noteq> {}"
    using r by auto
  have "editor_line_width m (maxDisplayLength this) r \<in> ?A \<union> ?B"
    using r by blast
  then have "editor_line_width m (maxDisplayLength this) r \<le> Max (?A \<union> ?B)"
    using fin by (rule Max_ge [rotated])
  moreover have "0 \<le> editor_line_width m (maxDisplayLength this) r"
    using pos by (simp add: editor_line_width_def)
  ultimately have "0 \<le> Max (?A \<union> ?B)"
    by linarith
  then have "Max (insert 0 (?A \<union> ?B)) = Max (?A \<union> ?B)"
    using fin ne by (simp add: max_def)
  then show "size_width (updateSize' m (this\<lparr>isBeingEdited' := True\<rparr>))
     = Max (?A \<union> ?B)
       + (if borderRect' this then FIELD_BORDER_RECT_X_PADDING m * 2 else 0)"
    using eq by simp
qed

lemmas size_eval = render'_def updateSize'_def example_field_def example_metrics_def
  getDisplayText'_def getText_def NBSP_def

theorem updateSize_edit_width_witness:
  "(\<forall>s. 0 \<le> getFastTextWidth example_metrics s)
   \<and> size_width (updateSize' example_metrics
        (example_field\<lparr>textGroup' := [str ''Text'', str ''value''], maxLineChars' := 40,
           isBeingEdited' := False\<rparr>)) = 50
   \<and> size_width (updateSize' example_metrics
        (example_field\<lparr>textGroup' := [str ''Text'', str ''value''], maxLineChars' := 40,
           isBeingEdited' := True\<rparr>)) = 90"
  using updateSize_edit_width [of example_metrics
      "example_field\<lparr>textGroup' := [str ''Text'', str ''value''], maxLineChars' := 40\<rparr>"]
  by (simp add: size_eval row_eval)

text \<open>
  C9. For n nodes, n at least 1, the height is n times \<open>FIELD_TEXT_HEIGHT\<close> plus n - 1
  times \<open>FIELD_BORDER_RECT_Y_PADDING\<close>, plus the border padding when there is a border;
  \<open>render_\<close> always makes at least one node, so after it the formula holds with n the
  number of rows. The border adds twice \<open>FIELD_BORDER_RECT_Y_PADDING\<close> to the height and
  twice \<open>FIELD_BORDER_RECT_X_PADDING\<close> to the width.
\<close>

theorem updateSize_height_formula:
  "(textGroup' this \<noteq> [] \<longrightarrow>
      size_height (updateSize' m this)
      = real (length (textGroup' this)) * FIELD_TEXT_HEIGHT m
        + (real (length (textGroup' this)) - 1) * FIELD_BORDER_RECT_Y_PADDING m
        + (if borderRect' this then 2 * FIELD_BORDER_RECT_Y_PADDING m else 0))
   \<and> size_height (render' m this)
      = real (length (splitOnRows (getDisplayText' this) (maxLineChars' this)))
          * FIELD_TEXT_HEIGHT m
        + (real (length (splitOnRows (getDisplayText' this) (maxLineChars' this))) - 1)
          * FIELD_BORDER_RECT_Y_PADDING m
        + (if borderRect' this then 2 * FIELD_BORDER_RECT_Y_PADDING m else 0)
   \<and> size_height (updateSize' m (this\<lparr>borderRect' := True\<rparr>))
      = size_height (updateSize' m (this\<lparr>borderRect' := False\<rparr>))
        + 2 * FIELD_BORDER_RECT_Y_PADDING m
   \<and> size_width (updateSize' m (this\<lparr>borderRect' := True\<rparr>))
      = size_width (updateSize' m (this\<lparr>borderRect' := False\<rparr>))
        + 2 * FIELD_BORDER_RECT_X_PADDING m"
proof (intro conjI impI)
  assume "textGroup' this \<noteq> []"
  then show "size_height (updateSize' m this)
      = real (length (textGroup' this)) * FIELD_TEXT_HEIGHT m
        + (real (length (textGroup' this)) - 1) * FIELD_BORDER_RECT_Y_PADDING m
        + (if borderRect' this then 2 * FIELD_BORDER_RECT_Y_PADDING m else 0)"
    by (simp add: updateSize_height Let_def)
next
  show "size_height (render' m this)
      = real (length (splitOnRows (getDisplayText' this) (maxLineChars' this)))
          * FIELD_TEXT_HEIGHT m
        + (real (length (splitOnRows (getDisplayText' this) (maxLineChars' this))) - 1)
          * FIELD_BORDER_RECT_Y_PADDING m
        + (if borderRect' this then 2 * FIELD_BORDER_RECT_Y_PADDING m else 0)"
    using splitOnRows_nonempty [of "getDisplayText' this" "maxLineChars' this"]
    by (simp add: render_height updateSize_height Let_def)
next
  show "size_height (updateSize' m (this\<lparr>borderRect' := True\<rparr>))
      = size_height (updateSize' m (this\<lparr>borderRect' := False\<rparr>))
        + 2 * FIELD_BORDER_RECT_Y_PADDING m"
    by (simp add: updateSize_height Let_def)
next
  show "size_width (updateSize' m (this\<lparr>borderRect' := True\<rparr>))
      = size_width (updateSize' m (this\<lparr>borderRect' := False\<rparr>))
        + 2 * FIELD_BORDER_RECT_X_PADDING m"
    by (simp add: updateSize_width Let_def)
qed

theorem updateSize_height_formula_witness:
  "textGroup' (example_field\<lparr>textGroup' := [str ''Text'', str ''value'']\<rparr>) \<noteq> []
   \<and> size_height (updateSize' example_metrics
        (example_field\<lparr>textGroup' := [str ''Text'', str ''value'']\<rparr>)) = 41
   \<and> size_height (updateSize' example_metrics
        (example_field\<lparr>textGroup' := [str ''Text'', str ''value''], borderRect' := False\<rparr>)) = 35
   \<and> size_height (render' example_metrics (example_field\<lparr>maxLineChars' := 5\<rparr>)) = 41"
  using updateSize_height_formula [of
      "example_field\<lparr>textGroup' := [str ''Text'', str ''value'']\<rparr>" example_metrics]
    updateSize_height_formula [of "example_field\<lparr>maxLineChars' := 5\<rparr>" example_metrics]
  by (simp add: size_eval row_eval)

end
